theory Spec2Isabelle
  imports Complex_Main "HOL-Library.Word" "HOL-Library.Multiset" "HOL-Library.Sublist"
    "HOL-Library.AList"
begin

unbundle bit_operations_syntax

section \<open>The words of the day\<close>

text \<open>
  \<^verbatim>\<open>src/app/page.tsx\<close>, \<^verbatim>\<open>seedRandom\<close>. The variable \<^verbatim>\<open>h\<close> of the closure always
  holds a 32-bit pattern (\<^verbatim>\<open>Math.imul\<close>, \<^verbatim>\<open>| 0\<close>, \<^verbatim>\<open>>>> 0\<close>), so it is a
  \<open>32 word\<close>: \<open>seedRandom\<close> gives its value after the loop over the seed, and \<open>rng\<close>
  is one call of the closure that \<^verbatim>\<open>seedRandom\<close> returns, from the current \<^verbatim>\<open>h\<close> to
  the number returned and the new \<^verbatim>\<open>h\<close>. A character of the seed is its code unit
  (\<^verbatim>\<open>charCodeAt\<close>); code units below 256 are covered, which includes every day key.
\<close>

definition seedRandom :: "string \<Rightarrow> 32 word" where
  "seedRandom seed = foldl (\<lambda>h c. 31 * h + of_char c) 0 seed"

definition rng :: "32 word \<Rightarrow> real \<times> 32 word" where
  "rng h0 =
     (let h1 = (h0 XOR drop_bit 16 h0) * 0x45d9f3b;
          h2 = (h1 XOR drop_bit 13 h1) * 0x45d9f3b;
          h3 = h2 XOR drop_bit 16 h2
      in (real (unat h3) / 4294967296, h3))"

text \<open>
  The comparison function handed to \<^verbatim>\<open>sort\<close> is \<^verbatim>\<open>() => rng() - 0.5\<close>: it does not
  look at the two elements, and every call advances \<^verbatim>\<open>h\<close>.
\<close>

definition comparefn :: "'a \<Rightarrow> 'a \<Rightarrow> 32 word \<Rightarrow> real \<times> 32 word" where
  "comparefn a b h = (fst (rng h) - 0.5, snd (rng h))"

text \<open>
  \<^verbatim>\<open>Array.prototype.sort\<close> belongs to the JavaScript engine. The language standard
  fixes its result only for a consistent comparison function; for any other, such as
  the one above, the order is implementation-defined. The engine's procedure is
  therefore an argument: it receives the comparison function, the array and the state
  that the comparison function reads and writes, and returns the sorted array with the
  final state.
\<close>

type_synonym ('a, 's) sort_engine =
  "('a \<Rightarrow> 'a \<Rightarrow> 's \<Rightarrow> real \<times> 's) \<Rightarrow> 'a list \<Rightarrow> 's \<Rightarrow> 'a list \<times> 's"

text \<open>
  \<^verbatim>\<open>xs.slice(0, stop)\<close> for an integer \<open>stop\<close>: a negative \<open>stop\<close> counts from the
  end of the array, and both cases are cut to the array's bounds.
\<close>

definition slice0 :: "'a list \<Rightarrow> int \<Rightarrow> 'a list" where
  "slice0 xs stop =
     (if stop < 0 then take (nat (int (length xs) + stop)) xs else take (nat stop) xs)"

text \<open>
  What the page reads from its surroundings. \<open>today\<close> is the string that
  \<^verbatim>\<open>getDayKey\<close> builds from the clock (the date in New York as \<^verbatim>\<open>YYYY-MM-DD\<close>).
  \<open>window_defined\<close> is false where the code runs on the server. \<open>items\<close> is the
  content of \<^verbatim>\<open>localStorage\<close>; \<open>storage_denied\<close> says that reading it throws (a
  browser that blocks storage), \<open>refuses k v\<close> that \<^verbatim>\<open>setItem(k, v)\<close> throws (the
  quota is used up).
\<close>

record browser =
  today :: string
  window_defined :: bool
  storage_denied :: bool
  items :: "string \<rightharpoonup> string"
  refuses :: "string \<Rightarrow> string \<Rightarrow> bool"

definition getDayKey :: "browser \<Rightarrow> string" where
  "getDayKey b = today b"

definition getDailyWords :: "('a, 32 word) sort_engine \<Rightarrow> browser \<Rightarrow> 'a list \<Rightarrow> int \<Rightarrow> 'a list" where
  "getDailyWords engine b allWords count' =
     (let day = getDayKey b;
          h = seedRandom day;
          shuffled = fst (engine comparefn allWords h)
      in slice0 shuffled count')"

text \<open>
  Two procedures an engine may use; both sort whenever the comparison function is
  consistent. \<open>insertion_sort\<close> takes the elements from left to right and moves each
  one down from the end of the part already sorted, past every element that the
  comparison puts after it (\<open>placed\<close> holds that part, last element first).
  \<open>merge_sort\<close> sorts the two halves and merges them.
\<close>

fun insert_down ::
    "('a \<Rightarrow> 'a \<Rightarrow> 's \<Rightarrow> real \<times> 's) \<Rightarrow> 'a \<Rightarrow> 'a list \<Rightarrow> 's \<Rightarrow> 'a list \<times> 's" where
  "insert_down cmp x [] s = ([x], s)"
| "insert_down cmp x (y # placed) s =
     (if fst (cmp y x s) > 0
      then (y # fst (insert_down cmp x placed (snd (cmp y x s))),
            snd (insert_down cmp x placed (snd (cmp y x s))))
      else (x # y # placed, snd (cmp y x s)))"

fun insert_all ::
    "('a \<Rightarrow> 'a \<Rightarrow> 's \<Rightarrow> real \<times> 's) \<Rightarrow> 'a list \<Rightarrow> 'a list \<Rightarrow> 's \<Rightarrow> 'a list \<times> 's" where
  "insert_all cmp [] placed s = (rev placed, s)"
| "insert_all cmp (x # xs) placed s =
     insert_all cmp xs (fst (insert_down cmp x placed s)) (snd (insert_down cmp x placed s))"

definition insertion_sort :: "('a, 's) sort_engine" where
  "insertion_sort cmp xs s = insert_all cmp xs [] s"

fun merge ::
    "('a \<Rightarrow> 'a \<Rightarrow> 's \<Rightarrow> real \<times> 's) \<Rightarrow> 'a list \<Rightarrow> 'a list \<Rightarrow> 's \<Rightarrow> 'a list \<times> 's" where
  "merge cmp [] ys s = (ys, s)"
| "merge cmp (x # xs) [] s = (x # xs, s)"
| "merge cmp (x # xs) (y # ys) s =
     (if fst (cmp x y s) > 0
      then (y # fst (merge cmp (x # xs) ys (snd (cmp x y s))),
            snd (merge cmp (x # xs) ys (snd (cmp x y s))))
      else (x # fst (merge cmp xs (y # ys) (snd (cmp x y s))),
            snd (merge cmp xs (y # ys) (snd (cmp x y s)))))"

fun merge_sort :: "('a, 's) sort_engine" where
  "merge_sort cmp [] s = ([], s)"
| "merge_sort cmp [x] s = ([x], s)"
| "merge_sort cmp (x # y # zs) s =
     (let half = length (x # y # zs) div 2;
          left = merge_sort cmp (take half (x # y # zs)) s;
          right = merge_sort cmp (drop half (x # y # zs)) (snd left)
      in merge cmp (fst left) (fst right) (snd right))"

text \<open>
  An engine returns the elements it was given, in some order. It sorts when, for every
  comparison function that is consistent (its result depends on the two elements only,
  it leaves the state alone, and "not after" is a total preorder), no element of the
  result is put after a later one.
\<close>

definition rearranges :: "('a, 's) sort_engine \<Rightarrow> bool" where
  "rearranges engine = (\<forall>cmp xs s. mset (fst (engine cmp xs s)) = mset xs)"

definition consistent :: "('a \<Rightarrow> 'a \<Rightarrow> 's \<Rightarrow> real \<times> 's) \<Rightarrow> ('a \<Rightarrow> 'a \<Rightarrow> real) \<Rightarrow> bool" where
  "consistent cmp f =
     ((\<forall>a b s. cmp a b s = (f a b, s))
      \<and> (\<forall>a b. f a b > 0 \<longrightarrow> \<not> f b a > 0)
      \<and> (\<forall>a b c. \<not> f a b > 0 \<longrightarrow> \<not> f b c > 0 \<longrightarrow> \<not> f a c > 0))"

definition sorts :: "('a, 's) sort_engine \<Rightarrow> bool" where
  "sorts engine =
     (\<forall>cmp f xs s. consistent cmp f \<longrightarrow>
        sorted_wrt (\<lambda>a b. \<not> f a b > 0) (fst (engine cmp xs s))
        \<and> mset (fst (engine cmp xs s)) = mset xs)"

section \<open>Word states of the page\<close>

text \<open>
  \<^verbatim>\<open>src/app/page.tsx\<close>, the interfaces \<^verbatim>\<open>Word\<close> and \<^verbatim>\<open>WordState\<close>. The phases are
  the string literals \<^verbatim>\<open>"define" | "revealed" | "sentence" | "feedback" | "dismissed"\<close>.
  A \<^verbatim>\<open>number\<close> that holds a score is a real: it comes from a JSON body or is the
  literal 0. The field \<^verbatim>\<open>definition\<close> of \<^verbatim>\<open>Word\<close> is written \<open>definition'\<close>.
\<close>

record Word =
  word :: string
  definition' :: string
  connotation :: string
  roots :: string
  tier :: int

datatype Phase = Define | Revealed | Sentence | Feedback | Dismissed

record DefinitionFeedback =
  score :: real
  feedback :: string

record SentenceFeedback = DefinitionFeedback +
  improved :: string

text \<open>
  A \<^verbatim>\<open>WordState\<close> object as it exists at run time: each property is present or not.
  \<^verbatim>\<open>Partial<WordState>\<close>, the type of an update, has the same shape. The interface
  requires \<^verbatim>\<open>phase\<close>; it is absent only in an object that \<open>updateWordState\<close> builds for
  a word without a state from an update without a phase.
\<close>

record WordState =
  phase :: "Phase option"
  userDefinition :: "string option"
  definitionFeedback :: "DefinitionFeedback option"
  userSentence :: "string option"
  sentenceFeedback :: "SentenceFeedback option"

type_synonym WordStates = "string \<rightharpoonup> WordState"

definition no_properties :: WordState where
  "no_properties = \<lparr>phase = None, userDefinition = None, definitionFeedback = None,
                      userSentence = None, sentenceFeedback = None\<rparr>"

text \<open>
  Object spread. \<open>spread a b\<close> is \<^verbatim>\<open>{ ...a, ...b }\<close>: a property present in \<open>b\<close>
  wins, any other keeps its value from \<open>a\<close>. \<open>spread_of\<close> is what spreading
  \<^verbatim>\<open>prev[word]\<close> contributes: nothing when the key is missing (\<^verbatim>\<open>undefined\<close>).
\<close>

definition later :: "'a option \<Rightarrow> 'a option \<Rightarrow> 'a option" where
  "later a b = (case b of None \<Rightarrow> a | Some v \<Rightarrow> Some v)"

definition spread :: "WordState \<Rightarrow> WordState \<Rightarrow> WordState" where
  "spread a b =
     \<lparr>phase = later (phase a) (phase b),
      userDefinition = later (userDefinition a) (userDefinition b),
      definitionFeedback = later (definitionFeedback a) (definitionFeedback b),
      userSentence = later (userSentence a) (userSentence b),
      sentenceFeedback = later (sentenceFeedback a) (sentenceFeedback b)\<rparr>"

definition spread_of :: "WordState option \<Rightarrow> WordState" where
  "spread_of entry = (case entry of None \<Rightarrow> no_properties | Some state \<Rightarrow> state)"

text \<open>
  \<^verbatim>\<open>updateWordState\<close>: the state updater
  \<^verbatim>\<open>(prev) => ({ ...prev, [word]: { ...prev[word], ...update } })\<close>. The updater also
  hands the new map to \<^verbatim>\<open>persistState\<close>, which writes it to local storage under the
  day key and does not change it; the map of states is what the updater returns.
\<close>

definition updateWordState :: "string \<Rightarrow> WordState \<Rightarrow> WordStates \<Rightarrow> WordStates" where
  "updateWordState w update prev = prev(w \<mapsto> spread (spread_of (prev w)) update)"

text \<open>
  The two awaits of a handler, \<^verbatim>\<open>fetch("/api/assess", ...)\<close> and \<^verbatim>\<open>res.json()\<close>,
  either deliver the parsed body or reject (no connection, a body that is not JSON);
  the status code of the response is not read. \<open>could_not_assess\<close> is the text
  \<^verbatim>\<open>"Could not assess \<emdash> check your connection."\<close> with the dash as its three UTF-8 bytes.
\<close>

datatype 'a fetched = Rejects | Resolves 'a

definition could_not_assess :: string where
  "could_not_assess =
     ''Could not assess '' @ [CHR 0xE2, CHR 0x80, CHR 0x94] @ '' check your connection.''"

definition assessDefinition ::
    "Word \<Rightarrow> string \<Rightarrow> DefinitionFeedback fetched \<Rightarrow> WordStates \<Rightarrow> WordStates" where
  "assessDefinition w userDef response prev =
     (case response of
        Resolves data \<Rightarrow>
          updateWordState (word w)
            (no_properties\<lparr>phase := Some Revealed, userDefinition := Some userDef,
                           definitionFeedback := Some data\<rparr>) prev
      | Rejects \<Rightarrow>
          updateWordState (word w)
            (no_properties\<lparr>phase := Some Revealed, userDefinition := Some userDef,
                           definitionFeedback :=
                             Some \<lparr>score = 0, feedback = could_not_assess\<rparr>\<rparr>) prev)"

definition assessSentence ::
    "Word \<Rightarrow> string \<Rightarrow> SentenceFeedback fetched \<Rightarrow> WordStates \<Rightarrow> WordStates" where
  "assessSentence w userSentence' response prev =
     (case response of
        Resolves data \<Rightarrow>
          updateWordState (word w)
            (no_properties\<lparr>phase := Some Feedback, userSentence := Some userSentence',
                           sentenceFeedback := Some data\<rparr>) prev
      | Rejects \<Rightarrow>
          updateWordState (word w)
            (no_properties\<lparr>phase := Some Feedback, userSentence := Some userSentence',
                           sentenceFeedback :=
                             Some \<lparr>score = 0, feedback = could_not_assess, improved = []\<rparr>\<rparr>) prev)"

text \<open>
  \<^verbatim>\<open>dismissWord\<close>: the assessment of the definition, then the updater that marks the
  word dismissed when the stored feedback has a score of at least 4.
\<close>

definition dismissWord ::
    "Word \<Rightarrow> string \<Rightarrow> DefinitionFeedback fetched \<Rightarrow> WordStates \<Rightarrow> WordStates" where
  "dismissWord w userDef response prev0 =
     (let prev = assessDefinition w userDef response prev0 in
      case prev (word w) of
        None \<Rightarrow> prev
      | Some state \<Rightarrow>
          (case definitionFeedback state of
             None \<Rightarrow> prev
           | Some fb \<Rightarrow>
               if score fb \<ge> 4 then prev(word w \<mapsto> state\<lparr>phase := Some Dismissed\<rparr>)
               else prev))"

section \<open>The phases of a word on the page\<close>

text \<open>
  What can happen on the page, one event at a time. A \<^verbatim>\<open>WordCard\<close> shows the
  definition box while the phase is \<^verbatim>\<open>"define"\<close>, the button to the sentence while it is
  \<^verbatim>\<open>"revealed"\<close> and the sentence box while it is \<^verbatim>\<open>"sentence"\<close>; the boxes pass on
  trimmed input that is not empty. A submission starts a request; its answer arrives
  later, after any other events, and then the handler's updater runs on the states of
  that moment. (\<^verbatim>\<open>assessingWord\<close> only disables the buttons of the word submitted
  last; the events below do not depend on it, so they include every run of the page.)
\<close>

datatype request =
    DefinitionRequest Word string
  | DismissRequest Word string
  | SentenceRequest Word string

datatype event =
    SubmitDefinition Word string
  | Dismiss Word string
  | DefinitionAssessed Word string "DefinitionFeedback fetched"
  | DismissAssessed Word string "DefinitionFeedback fetched"
  | MoveSentence Word
  | SubmitSentence Word string
  | SentenceAssessed Word string "SentenceFeedback fetched"

record page =
  wordStates :: WordStates
  inflight :: "request list"

definition phase_of :: "page \<Rightarrow> string \<Rightarrow> Phase option" where
  "phase_of p w = (case wordStates p w of None \<Rightarrow> None | Some state \<Rightarrow> phase state)"

fun fire :: "event \<Rightarrow> page \<Rightarrow> page option" where
  "fire (SubmitDefinition w d) p =
     (if phase_of p (word w) = Some Define \<and> d \<noteq> []
      then Some (p\<lparr>inflight := DefinitionRequest w d # inflight p\<rparr>) else None)"
| "fire (Dismiss w d) p =
     (if phase_of p (word w) = Some Define \<and> d \<noteq> []
      then Some (p\<lparr>inflight := DismissRequest w d # inflight p\<rparr>) else None)"
| "fire (DefinitionAssessed w d response) p =
     (if DefinitionRequest w d \<in> set (inflight p)
      then Some \<lparr>wordStates = assessDefinition w d response (wordStates p),
                 inflight = remove1 (DefinitionRequest w d) (inflight p)\<rparr>
      else None)"
| "fire (DismissAssessed w d response) p =
     (if DismissRequest w d \<in> set (inflight p)
      then Some \<lparr>wordStates = dismissWord w d response (wordStates p),
                 inflight = remove1 (DismissRequest w d) (inflight p)\<rparr>
      else None)"
| "fire (MoveSentence w) p =
     (if phase_of p (word w) = Some Revealed
      then Some (p\<lparr>wordStates :=
                     updateWordState (word w) (no_properties\<lparr>phase := Some Sentence\<rparr>)
                       (wordStates p)\<rparr>)
      else None)"
| "fire (SubmitSentence w s) p =
     (if phase_of p (word w) = Some Sentence \<and> s \<noteq> []
      then Some (p\<lparr>inflight := SentenceRequest w s # inflight p\<rparr>) else None)"
| "fire (SentenceAssessed w s response) p =
     (if SentenceRequest w s \<in> set (inflight p)
      then Some \<lparr>wordStates = assessSentence w s response (wordStates p),
                 inflight = remove1 (SentenceRequest w s) (inflight p)\<rparr>
      else None)"

text \<open>
  \<open>run p es\<close> is the list of pages that the events \<open>es\<close> lead through from \<open>p\<close>,
  oldest first and \<open>p\<close> included, or \<open>None\<close> when some event cannot happen where it
  stands.
\<close>

fun run :: "page \<Rightarrow> event list \<Rightarrow> page list option" where
  "run p [] = Some [p]"
| "run p (e # es) =
     (case fire e p of
        None \<Rightarrow> None
      | Some p' \<Rightarrow> (case run p' es of None \<Rightarrow> None | Some ps \<Rightarrow> Some (p # ps)))"

text \<open>
  \<open>sentence_pending p w\<close>: a sentence of the word \<open>w\<close> is waiting for its assessment.
\<close>

fun asks_sentence :: "string \<Rightarrow> request \<Rightarrow> bool" where
  "asks_sentence w (SentenceRequest v s) = (word v = w)"
| "asks_sentence w (DefinitionRequest v d) = False"
| "asks_sentence w (DismissRequest v d) = False"

definition sentence_pending :: "page \<Rightarrow> string \<Rightarrow> bool" where
  "sentence_pending p w = list_ex (asks_sentence w) (inflight p)"

definition phases :: "string \<Rightarrow> page list \<Rightarrow> Phase option list" where
  "phases w ps = map (\<lambda>p. phase_of p w) ps"

section \<open>The progress store in local storage\<close>

text \<open>
  The values that \<^verbatim>\<open>JSON.parse\<close> returns and \<^verbatim>\<open>JSON.stringify\<close> takes. The store
  is such a value: an object from day keys to objects from words to word states. An
  object lists its members in the order in which \<^verbatim>\<open>JSON.stringify\<close> writes them, each
  key once. The model is restricted to numbers that are whole (the scores of the
  assessment are) and to strings of code units below 256.
\<close>

datatype json =
    JNull
  | JBool bool
  | JNumber int
  | JString string
  | JArray "json list"
  | JObject "(string \<times> json) list"


abbreviation (input) quotation_mark :: char where
  "quotation_mark \<equiv> CHR 0x22"

abbreviation (input) reverse_solidus :: char where
  "reverse_solidus \<equiv> CHR 0x5C"

subsection \<open>\<^verbatim>\<open>JSON.stringify\<close> with one argument\<close>









subsection \<open>\<^verbatim>\<open>JSON.parse\<close> with one argument\<close>

text \<open>
  The text is cut into tokens, and the tokens are read with a stack of the arrays and
  objects that are still open. A text that is not JSON gives \<open>SyntaxError\<close>. Outside
  the values above, and rejected here: a number with a fraction or an exponent, and an
  escape \<^verbatim>\<open>\u\<close> of a code unit from 256 on.
\<close>

datatype token =
    LBrace | RBrace | LBracket | RBracket | Comma | Colon
  | TString string | TNumber int | TTrue | TFalse | TNull

definition is_space :: "char \<Rightarrow> bool" where
  "is_space c = (c = CHR 0x20 \<or> c = CHR 0x09 \<or> c = CHR 0x0A \<or> c = CHR 0x0D)"

definition is_digit :: "char \<Rightarrow> bool" where
  "is_digit c = (48 \<le> (of_char c :: nat) \<and> (of_char c :: nat) \<le> 57)"

definition hex_value :: "char \<Rightarrow> nat option" where
  "hex_value c =
     (let n = (of_char c :: nat) in
      if 48 \<le> n \<and> n \<le> 57 then Some (n - 48)
      else if 97 \<le> n \<and> n \<le> 102 then Some (n - 87)
      else if 65 \<le> n \<and> n \<le> 70 then Some (n - 55)
      else None)"

definition unescape :: "char \<Rightarrow> char option" where
  "unescape e =
     (if e = quotation_mark \<or> e = reverse_solidus \<or> e = CHR ''/'' then Some e
      else if e = CHR ''b'' then Some (CHR 0x08)
      else if e = CHR ''t'' then Some (CHR 0x09)
      else if e = CHR ''n'' then Some (CHR 0x0A)
      else if e = CHR ''f'' then Some (CHR 0x0C)
      else if e = CHR ''r'' then Some (CHR 0x0D)
      else None)"

definition code_unit :: "char \<Rightarrow> char \<Rightarrow> char \<Rightarrow> char \<Rightarrow> char option" where
  "code_unit a b c d =
     (case (hex_value a, hex_value b, hex_value c, hex_value d) of
        (Some p, Some q, Some r, Some s) \<Rightarrow>
          if p = 0 \<and> q = 0 then Some (char_of (16 * r + s)) else None
      | _ \<Rightarrow> None)"

definition push :: "char \<Rightarrow> (string \<times> string) option \<Rightarrow> (string \<times> string) option" where
  "push c r = (case r of None \<Rightarrow> None | Some (s, rest) \<Rightarrow> Some (c # s, rest))"

text \<open>
  \<open>lex_string\<close> reads a string after its opening quotation mark and returns its value
  with the text after the closing one.
\<close>

fun lex_string :: "string \<Rightarrow> (string \<times> string) option" where
  "lex_string [] = None"
| "lex_string (c # cs) =
     (if c = quotation_mark then Some ([], cs)
      else if c = reverse_solidus then
        (case cs of
           [] \<Rightarrow> None
         | e # cs' \<Rightarrow>
             if e = CHR ''u'' then
               (case cs' of
                  a # b # c' # d # cs'' \<Rightarrow>
                    (case code_unit a b c' d of
                       None \<Rightarrow> None
                     | Some u \<Rightarrow> push u (lex_string cs''))
                | _ \<Rightarrow> None)
             else
               (case unescape e of
                  None \<Rightarrow> None
                | Some u \<Rightarrow> push u (lex_string cs')))
      else if (of_char c :: nat) < 32 then None
      else push c (lex_string cs))"

definition digits_value :: "string \<Rightarrow> nat" where
  "digits_value ds = foldl (\<lambda>n d. 10 * n + (of_char d - 48)) 0 ds"

text \<open>
  \<open>lex_number\<close> reads a number at the head of the text: an optional minus sign and
  digits without a superfluous leading zero.
\<close>

definition lex_number :: "string \<Rightarrow> (int \<times> string) option" where
  "lex_number cs =
     (let negative = (take 1 cs = ''-'');
          body = (if negative then drop 1 cs else cs);
          ds = takeWhile is_digit body;
          rest = dropWhile is_digit body
      in if ds = [] \<or> (length ds > 1 \<and> take 1 ds = ''0'')
            \<or> take 1 rest = ''.'' \<or> take 1 rest = ''e'' \<or> take 1 rest = ''E''
         then None
         else Some (if negative then - int (digits_value ds) else int (digits_value ds), rest))"

definition emit :: "token \<Rightarrow> token list option \<Rightarrow> token list option" where
  "emit t r = (case r of None \<Rightarrow> None | Some ts \<Rightarrow> Some (t # ts))"

function lex :: "string \<Rightarrow> token list option" where
  "lex [] = Some []"
| "lex (c # cs) =
     (if is_space c then lex cs
      else if c = CHR ''{'' then emit LBrace (lex cs)
      else if c = CHR ''}'' then emit RBrace (lex cs)
      else if c = CHR ''['' then emit LBracket (lex cs)
      else if c = CHR '']'' then emit RBracket (lex cs)
      else if c = CHR '','' then emit Comma (lex cs)
      else if c = CHR '':'' then emit Colon (lex cs)
      else if c = quotation_mark then
        (case lex_string cs of
           None \<Rightarrow> None
         | Some (s, rest) \<Rightarrow> emit (TString s) (lex rest))
      else if c = CHR ''-'' \<or> is_digit c then
        (case lex_number (c # cs) of
           None \<Rightarrow> None
         | Some (i, rest) \<Rightarrow> emit (TNumber i) (lex rest))
      else if take 4 (c # cs) = ''true'' then emit TTrue (lex (drop 4 (c # cs)))
      else if take 5 (c # cs) = ''false'' then emit TFalse (lex (drop 5 (c # cs)))
      else if take 4 (c # cs) = ''null'' then emit TNull (lex (drop 4 (c # cs)))
      else None)"
  by pat_completeness auto
termination
proof (relation "measure length")
  have string_rest: "length rest < length cs" if "lex_string cs = Some (s, rest)" for cs s rest
    using that
    by (induction cs arbitrary: s rest rule: lex_string.induct)
       (fastforce simp: push_def split: if_splits list.splits option.splits)+
  have number_rest: "length rest < length cs" if "lex_number cs = Some (i, rest)" for cs i rest
  proof -
    from that have "takeWhile is_digit (if take 1 cs = ''-'' then drop 1 cs else cs) \<noteq> []"
      and "rest = dropWhile is_digit (if take 1 cs = ''-'' then drop 1 cs else cs)"
      by (auto simp: lex_number_def Let_def split: if_splits)
    then have "length rest < length (if take 1 cs = ''-'' then drop 1 cs else cs)"
      by (metis length_append takeWhile_dropWhile_id length_greater_0_conv less_add_same_cancel2)
    then show ?thesis
      by (auto split: if_splits)
  qed
  show "wf (measure length)" by simp
  show "(rest, c # cs) \<in> measure length"
    if "lex_string cs = Some x" and "(s, rest) = x" for c cs x s rest
    using string_rest [of cs s rest] that by simp
  show "(rest, c # cs) \<in> measure length"
    if "lex_number (c # cs) = Some x" and "(i, rest) = x" for c cs x i rest
    using number_rest [of "c # cs" i rest] that by simp
qed simp_all

declare lex.simps(2) [simp del]

text \<open>
  The reader of tokens. A frame of the stack is an array with the elements read so far,
  or an object with the members read so far and the key whose value is being read.
  \<open>deliver\<close> hands a finished value to the innermost open array or object; a repeated
  key replaces the earlier value.
\<close>

datatype frame = InArray "json list" | InObject "(string \<times> json) list" string







subsection \<open>\<^verbatim>\<open>getLocalState\<close> and \<^verbatim>\<open>saveLocalState\<close>\<close>








definition emits :: "token list \<Rightarrow> token list option \<Rightarrow> token list option" where
  "emits ts r = (case r of None \<Rightarrow> None | Some ts' \<Rightarrow> Some (ts @ ts'))"

definition closes :: "string \<Rightarrow> bool" where
  "closes rest = (rest = [] \<or> take 1 rest = '','' \<or> take 1 rest = '']'' \<or> take 1 rest = ''}'')"

section \<open>Rate limiter of the assessment route\<close>

text \<open>
  \<^verbatim>\<open>src/app/api/assess/route.ts\<close>: \<^verbatim>\<open>rateMap\<close> is a module-level
  \<^verbatim>\<open>Map<string, {count, resetAt}>\<close>; it is passed and returned explicitly here.
  \<^verbatim>\<open>Date.now()\<close> is the argument \<open>now\<close> (milliseconds).
\<close>

record rate_entry =
  count :: nat
  resetAt :: int

type_synonym rateMap = "string \<rightharpoonup> rate_entry"

definition RATE_LIMIT :: nat where
  "RATE_LIMIT = 30"

definition RATE_WINDOW_MS :: int where
  "RATE_WINDOW_MS = 60 * 1000"

definition isRateLimited :: "int \<Rightarrow> string \<Rightarrow> rateMap \<Rightarrow> bool \<times> rateMap" where
  "isRateLimited now ip rateMap =
     (case rateMap ip of
        None \<Rightarrow> (False, rateMap(ip \<mapsto> \<lparr>count = 1, resetAt = now + RATE_WINDOW_MS\<rparr>))
      | Some entry \<Rightarrow>
          if now > resetAt entry
          then (False, rateMap(ip \<mapsto> \<lparr>count = 1, resetAt = now + RATE_WINDOW_MS\<rparr>))
          else let entry' = entry\<lparr>count := count entry + 1\<rparr>
               in (if count entry' > RATE_LIMIT then (True, rateMap(ip \<mapsto> entry'))
                   else (False, rateMap(ip \<mapsto> entry'))))"

text \<open>
  The \<^verbatim>\<open>setInterval\<close> callback: every entry whose window is over is deleted.
\<close>

definition cleanup :: "int \<Rightarrow> rateMap \<Rightarrow> rateMap" where
  "cleanup now rateMap =
     (\<lambda>ip. case rateMap ip of
             None \<Rightarrow> None
           | Some entry \<Rightarrow> if now > resetAt entry then None else Some entry)"

text \<open>
  What happens to the map over time: a request from an address at a clock reading, or a
  run of the clean-up callback. \<open>serve\<close> records, for each request, the address and
  the answer of \<open>isRateLimited\<close> (\<open>True\<close>: the request is refused with status 429).
\<close>

datatype traffic = Request int string | Cleanup int

fun time_of :: "traffic \<Rightarrow> int" where
  "time_of (Request now ip) = now"
| "time_of (Cleanup now) = now"

fun serve :: "traffic list \<Rightarrow> rateMap \<Rightarrow> (string \<times> bool) list" where
  "serve [] rateMap = []"
| "serve (Request now ip # es) rateMap =
     (ip, fst (isRateLimited now ip rateMap)) # serve es (snd (isRateLimited now ip rateMap))"
| "serve (Cleanup now # es) rateMap = serve es (cleanup now rateMap)"

definition answers :: "string \<Rightarrow> (string \<times> bool) list \<Rightarrow> bool list" where
  "answers ip rs = map snd (filter (\<lambda>r. fst r = ip) rs)"

fun requests_from :: "string \<Rightarrow> traffic list \<Rightarrow> nat" where
  "requests_from ip [] = 0"
| "requests_from ip (Request now ip' # es) =
     (if ip' = ip then Suc (requests_from ip es) else requests_from ip es)"
| "requests_from ip (Cleanup now # es) = requests_from ip es"

section \<open>Values used in the examples\<close>

definition abate :: Word where
  "abate = \<lparr>word = ''abate'', definition' = ''to become less intense'',
             connotation = ''a gradual easing'', roots = ''Old French abatre'', tier = 1\<rparr>"

definition zeal :: Word where
  "zeal = \<lparr>word = ''zeal'', definition' = ''great energy for a cause'',
            connotation = ''fervent, sometimes excessive'', roots = ''Greek zelos'', tier = 1\<rparr>"

definition fresh :: WordState where
  "fresh = no_properties\<lparr>phase := Some Define\<rparr>"

definition page0 :: page where
  "page0 = \<lparr>wordStates = [''abate'' \<mapsto> fresh, ''zeal'' \<mapsto> fresh], inflight = []\<rparr>"

definition events0 :: "event list" where
  "events0 =
     [SubmitDefinition abate ''to lessen'',
      SubmitDefinition zeal ''eagerness'',
      DefinitionAssessed abate ''to lessen'' (Resolves \<lparr>score = 3, feedback = ''Close.''\<rparr>),
      MoveSentence abate,
      SubmitSentence abate ''The storm abated.'',
      SentenceAssessed abate ''The storm abated.'' Rejects]"

definition candor :: Word where
  "candor = \<lparr>word = ''candor'', definition' = ''the quality of being open and honest'',
              connotation = ''frankness that is welcome'', roots = ''Latin candere'', tier = 1\<rparr>"

definition march1 :: browser where
  "march1 = \<lparr>today = ''2024-03-01'', window_defined = True, storage_denied = False,
              items = Map.empty, refuses = (\<lambda>k v. False)\<rparr>"




section \<open>Properties of the words of the day\<close>

lemma mset_insert_down: "mset (fst (insert_down cmp x placed s)) = add_mset x (mset placed)"
  by (induction placed arbitrary: s) simp_all

lemma mset_insert_all: "mset (fst (insert_all cmp xs placed s)) = mset xs + mset placed"
  by (induction xs arbitrary: placed s) (simp_all add: mset_insert_down)

lemma rearranges_insertion_sort: "rearranges insertion_sort"
  by (simp add: rearranges_def insertion_sort_def mset_insert_all)

lemma mset_merge: "mset (fst (merge cmp xs ys s)) = mset xs + mset ys"
  by (induction cmp xs ys s rule: merge.induct) simp_all

lemma mset_merge_sort: "mset (fst (merge_sort cmp xs s)) = mset xs"
proof (induction cmp xs s rule: merge_sort.induct)
  case (3 cmp x y zs s)
  let ?xs = "x # y # zs"
  let ?half = "length ?xs div 2"
  have "mset (fst (merge_sort cmp ?xs s)) = mset (take ?half ?xs) + mset (drop ?half ?xs)"
    using 3 by (simp only: merge_sort.simps Let_def mset_merge)
  also have "\<dots> = mset (take ?half ?xs @ drop ?half ?xs)"
    by (simp only: mset_append)
  finally show ?case
    by (simp only: append_take_drop_id)
qed simp_all

lemma rearranges_merge_sort: "rearranges merge_sort"
  by (simp add: rearranges_def mset_merge_sort)

lemma set_insert_down: "set (fst (insert_down cmp x placed s)) = insert x (set placed)"
  using mset_insert_down [of cmp x placed s, THEN arg_cong, of set_mset] by simp

lemma consistentD:
  assumes "consistent cmp f"
  shows "cmp a b s = (f a b, s)"
    and "f a b > 0 \<Longrightarrow> \<not> f b a > 0"
    and "\<not> f a b > 0 \<Longrightarrow> \<not> f b c > 0 \<Longrightarrow> \<not> f a c > 0"
proof -
  note c = assms [unfolded consistent_def]
  from c show "cmp a b s = (f a b, s)"
    by simp
  from c show "f a b > 0 \<Longrightarrow> \<not> f b a > 0"
    by blast
  from c show "\<not> f a b > 0 \<Longrightarrow> \<not> f b c > 0 \<Longrightarrow> \<not> f a c > 0"
    by blast
qed

lemma sorted_insert_down:
  assumes "consistent cmp f" and "sorted_wrt (\<lambda>a b. \<not> f b a > 0) placed"
  shows "sorted_wrt (\<lambda>a b. \<not> f b a > 0) (fst (insert_down cmp x placed s))"
  using assms(2)
proof (induction placed)
  case Nil
  show ?case by simp
next
  case (Cons y placed)
  note pure = consistentD(1) [OF assms(1)]
    and asym = consistentD(2) [OF assms(1)]
    and trans = consistentD(3) [OF assms(1)]
  have here: "fst (cmp y x s) = f y x" "snd (cmp y x s) = s"
    by (simp_all add: pure)
  from Cons.prems have before: "\<And>w. w \<in> set placed \<Longrightarrow> \<not> f w y > 0"
    and tail: "sorted_wrt (\<lambda>a b. \<not> f b a > 0) placed"
    by simp_all
  show ?case
  proof (cases "f y x > 0")
    case True
    have "sorted_wrt (\<lambda>a b. \<not> f b a > 0) (fst (insert_down cmp x placed s))"
      using tail by (rule Cons.IH)
    moreover have "\<not> f w y > 0" if "w \<in> insert x (set placed)" for w
      using that before asym [OF True] by blast
    ultimately show ?thesis
      using True by (simp add: here set_insert_down)
  next
    case False
    have "\<not> f w x > 0" if "w \<in> set placed" for w
      using before [OF that] False by (rule trans)
    with False Cons.prems show ?thesis
      by (simp add: here)
  qed
qed

lemma sorted_insert_all:
  assumes "consistent cmp f" and "sorted_wrt (\<lambda>a b. \<not> f b a > 0) placed"
  shows "sorted_wrt (\<lambda>a b. \<not> f a b > 0) (fst (insert_all cmp xs placed s))"
  using assms(2)
proof (induction xs arbitrary: placed s)
  case Nil
  then show ?case by (simp add: sorted_wrt_rev)
next
  case (Cons x xs)
  from assms(1) Cons.prems
  have "sorted_wrt (\<lambda>a b. \<not> f b a > 0) (fst (insert_down cmp x placed s))"
    by (rule sorted_insert_down)
  then show ?case
    by (simp add: Cons.IH)
qed

lemma sorts_insertion_sort: "sorts insertion_sort"
  by (simp add: sorts_def insertion_sort_def sorted_insert_all mset_insert_all)

lemma set_merge: "set (fst (merge cmp xs ys s)) = set xs \<union> set ys"
  using mset_merge [of cmp xs ys s, THEN arg_cong, of set_mset] by simp

lemma sorted_merge:
  "consistent cmp f \<Longrightarrow> sorted_wrt (\<lambda>a b. \<not> f a b > 0) xs \<Longrightarrow>
     sorted_wrt (\<lambda>a b. \<not> f a b > 0) ys \<Longrightarrow>
     sorted_wrt (\<lambda>a b. \<not> f a b > 0) (fst (merge cmp xs ys s))"
proof (induction cmp xs ys s rule: merge.induct)
  case (3 cmp x xs y ys s)
  note pure = consistentD(1) [OF "3.prems"(1)]
    and asym = consistentD(2) [OF "3.prems"(1)]
    and trans = consistentD(3) [OF "3.prems"(1)]
  have here: "fst (cmp x y s) = f x y" "snd (cmp x y s) = s"
    by (simp_all add: pure)
  from "3.prems" have xs: "\<And>w. w \<in> set xs \<Longrightarrow> \<not> f x w > 0"
    and ys: "\<And>w. w \<in> set ys \<Longrightarrow> \<not> f y w > 0"
    and sxs: "sorted_wrt (\<lambda>a b. \<not> f a b > 0) xs" and sys: "sorted_wrt (\<lambda>a b. \<not> f a b > 0) ys"
    by simp_all
  show ?case
  proof (cases "f x y > 0")
    case True
    have "sorted_wrt (\<lambda>a b. \<not> f a b > 0) (fst (merge cmp (x # xs) ys s))"
      using "3.IH"(1) "3.prems"(1,2) sys True by (simp add: here)
    moreover have yx: "\<not> f y x > 0"
      using True by (rule asym)
    moreover have "\<not> f y w > 0" if "w \<in> set xs" for w
      using yx xs [OF that] by (rule trans)
    ultimately show ?thesis
      using True ys by (auto simp: here set_merge)
  next
    case False
    have "sorted_wrt (\<lambda>a b. \<not> f a b > 0) (fst (merge cmp xs (y # ys) s))"
      using "3.IH"(3) "3.prems"(1,3) sxs False by (simp add: here)
    moreover have "\<not> f x w > 0" if "w \<in> set ys" for w
      using False ys [OF that] by (rule trans)
    ultimately show ?thesis
      using False xs by (auto simp: here set_merge)
  qed
qed simp_all

lemma sorted_merge_sort:
  "consistent cmp f \<Longrightarrow> sorted_wrt (\<lambda>a b. \<not> f a b > 0) (fst (merge_sort cmp xs s))"
proof (induction cmp xs s rule: merge_sort.induct)
  case (3 cmp x y zs s)
  then show ?case
    by (simp only: merge_sort.simps Let_def sorted_merge)
qed simp_all

lemma sorts_merge_sort: "sorts merge_sort"
  by (simp add: sorts_def sorted_merge_sort mset_merge_sort)

lemma slice0_all: "int (length xs) \<le> stop \<Longrightarrow> slice0 xs stop = xs"
  by (simp add: slice0_def)




text \<open>
  Claim C5. With a count greater than the size of the bank, \<open>getDailyWords\<close> returns the
  whole shuffled bank: the list that the engine's sort produced, which holds every word
  of the bank as often as the bank does. No branch of the function raises an error.
\<close>

theorem getDailyWords_clamped:
  assumes "rearranges engine" and "int (length allWords) < count'"
  shows "getDailyWords engine b allWords count'
           = fst (engine comparefn allWords (seedRandom (getDayKey b)))
       \<and> mset (getDailyWords engine b allWords count') = mset allWords"
proof -
  let ?shuffled = "fst (engine comparefn allWords (seedRandom (getDayKey b)))"
  from assms(1) have all: "mset ?shuffled = mset allWords"
    by (simp add: rearranges_def)
  then have "length ?shuffled = length allWords"
    by (rule mset_eq_length)
  with assms(2) have "slice0 ?shuffled count' = ?shuffled"
    by (simp add: slice0_all)
  with all show ?thesis
    by (simp add: getDailyWords_def Let_def)
qed

theorem getDailyWords_clamped_witness:
  "getDailyWords insertion_sort march1 [abate, candor, zeal] 5 = [candor, abate, zeal]
   \<and> mset (getDailyWords insertion_sort march1 [abate, candor, zeal] 5)
       = mset [abate, candor, zeal]"
proof -
  have "int (length [abate, candor, zeal]) < 5"
    by simp
  from getDailyWords_clamped [OF rearranges_insertion_sort this, of march1]
  have whole: "getDailyWords insertion_sort march1 [abate, candor, zeal] 5
                = fst (insertion_sort comparefn [abate, candor, zeal] (seedRandom (getDayKey march1)))"
    and same: "mset (getDailyWords insertion_sort march1 [abate, candor, zeal] 5)
                = mset [abate, candor, zeal]"
    by blast+
  have h: "seedRandom (getDayKey march1) = 3681685246"
    by (simp add: seedRandom_def getDayKey_def march1_def)
  have r1: "rng 3681685246 = (3610223280 / 4294967296, 3610223280)"
    and r2: "rng 3610223280 = (1545321610 / 4294967296, 1545321610)"
    and r3: "rng 1545321610 = (715935195 / 4294967296, 715935195)"
    by (simp_all add: rng_def Let_def)
  have "fst (insertion_sort comparefn [abate, candor, zeal] (seedRandom (getDayKey march1)))
          = [candor, abate, zeal]"
    by (simp add: h insertion_sort_def comparefn_def r1 r2 r3)
  with whole same show ?thesis
    by simp
qed

section \<open>Properties of the word states\<close>

lemma later_simps [simp]:
  "later a None = a"
  "later a (Some v) = Some v"
  by (simp_all add: later_def)

lemma spread_sel [simp]:
  "phase (spread a b) = later (phase a) (phase b)"
  "userDefinition (spread a b) = later (userDefinition a) (userDefinition b)"
  "definitionFeedback (spread a b) = later (definitionFeedback a) (definitionFeedback b)"
  "userSentence (spread a b) = later (userSentence a) (userSentence b)"
  "sentenceFeedback (spread a b) = later (sentenceFeedback a) (sentenceFeedback b)"
  by (simp_all add: spread_def)

lemma no_properties_sel [simp]:
  "phase no_properties = None"
  "userDefinition no_properties = None"
  "definitionFeedback no_properties = None"
  "userSentence no_properties = None"
  "sentenceFeedback no_properties = None"
  by (simp_all add: no_properties_def)

lemma updateWordState_same:
  "updateWordState w update prev w = Some (spread (spread_of (prev w)) update)"
  by (simp add: updateWordState_def)

lemma updateWordState_other:
  "w' \<noteq> w \<Longrightarrow> updateWordState w update prev w' = prev w'"
  by (simp add: updateWordState_def)

lemma assessDefinition_other:
  "w' \<noteq> word w \<Longrightarrow> assessDefinition w d response prev w' = prev w'"
  by (simp add: assessDefinition_def updateWordState_other split: fetched.split)

lemma assessSentence_other:
  "w' \<noteq> word w \<Longrightarrow> assessSentence w s response prev w' = prev w'"
  by (simp add: assessSentence_def updateWordState_other split: fetched.split)

lemma dismissWord_other:
  "w' \<noteq> word w \<Longrightarrow> dismissWord w d response prev w' = prev w'"
  by (simp add: dismissWord_def Let_def assessDefinition_other split: option.split)

lemma assessDefinition_same:
  "assessDefinition w d response prev (word w) =
     Some (spread (spread_of (prev (word w)))
            (no_properties\<lparr>phase := Some Revealed, userDefinition := Some d,
               definitionFeedback :=
                 Some (case response of
                         Resolves data \<Rightarrow> data
                       | Rejects \<Rightarrow> \<lparr>score = 0, feedback = could_not_assess\<rparr>)\<rparr>))"
  by (simp add: assessDefinition_def updateWordState_same split: fetched.split)

lemma assessSentence_same:
  "assessSentence w s response prev (word w) =
     Some (spread (spread_of (prev (word w)))
            (no_properties\<lparr>phase := Some Feedback, userSentence := Some s,
               sentenceFeedback :=
                 Some (case response of
                         Resolves data \<Rightarrow> data
                       | Rejects \<Rightarrow> \<lparr>score = 0, feedback = could_not_assess, improved = []\<rparr>)\<rparr>))"
  by (simp add: assessSentence_def updateWordState_same split: fetched.split)

lemma dismissWord_same:
  "dismissWord w d response prev (word w) =
     Some ((spread (spread_of (prev (word w)))
            (no_properties\<lparr>phase := Some Revealed, userDefinition := Some d,
               definitionFeedback :=
                 Some (case response of
                         Resolves data \<Rightarrow> data
                       | Rejects \<Rightarrow> \<lparr>score = 0, feedback = could_not_assess\<rparr>)\<rparr>))
           \<lparr>phase :=
              Some (if 4 \<le> score (case response of
                                     Resolves data \<Rightarrow> data
                                   | Rejects \<Rightarrow> \<lparr>score = 0, feedback = could_not_assess\<rparr>)
                    then Dismissed else Revealed)\<rparr>)"
  by (simp add: dismissWord_def Let_def assessDefinition_same split: fetched.split)

lemma could_not_assess_not_empty: "could_not_assess \<noteq> []"
  by (simp add: could_not_assess_def)

text \<open>
  Claim C9. The map that \<open>updateWordState w update\<close> returns agrees with the prior map at
  every key other than \<open>w\<close>; at \<open>w\<close> it holds an object in which every property that
  the update does not name has the value it had in \<^verbatim>\<open>prev[w]\<close> (no value, when the word
  had no state).
\<close>

theorem updateWordState_frame:
  "(\<forall>w'. w' \<noteq> w \<longrightarrow> updateWordState w update prev w' = prev w')
   \<and> (\<exists>state. updateWordState w update prev w = Some state
        \<and> (phase update = None \<longrightarrow> phase state = phase (spread_of (prev w)))
        \<and> (userDefinition update = None \<longrightarrow>
              userDefinition state = userDefinition (spread_of (prev w)))
        \<and> (definitionFeedback update = None \<longrightarrow>
              definitionFeedback state = definitionFeedback (spread_of (prev w)))
        \<and> (userSentence update = None \<longrightarrow>
              userSentence state = userSentence (spread_of (prev w)))
        \<and> (sentenceFeedback update = None \<longrightarrow>
              sentenceFeedback state = sentenceFeedback (spread_of (prev w))))"
  by (simp add: updateWordState_other updateWordState_same)

theorem updateWordState_frame_witness:
  "updateWordState ''abate'' (no_properties\<lparr>phase := Some Sentence\<rparr>)
      [''abate'' \<mapsto> fresh\<lparr>phase := Some Revealed, userDefinition := Some ''to lessen''\<rparr>,
       ''zeal'' \<mapsto> fresh] ''zeal'' = Some fresh
   \<and> (\<exists>state.
        updateWordState ''abate'' (no_properties\<lparr>phase := Some Sentence\<rparr>)
          [''abate'' \<mapsto> fresh\<lparr>phase := Some Revealed, userDefinition := Some ''to lessen''\<rparr>,
           ''zeal'' \<mapsto> fresh] ''abate'' = Some state
        \<and> userDefinition state = Some ''to lessen'' \<and> definitionFeedback state = None
        \<and> userSentence state = None \<and> sentenceFeedback state = None)"
proof -
  let ?u = "no_properties\<lparr>phase := Some Sentence\<rparr>"
  let ?prev = "[''abate'' \<mapsto> fresh\<lparr>phase := Some Revealed, userDefinition := Some ''to lessen''\<rparr>,
                ''zeal'' \<mapsto> fresh]"
  note frame = updateWordState_frame [of "''abate''" ?u ?prev]
  have other: "updateWordState ''abate'' ?u ?prev ''zeal'' = ?prev ''zeal''"
    by (rule frame [THEN conjunct1, rule_format]) simp
  from frame [THEN conjunct2] obtain state where
    state: "updateWordState ''abate'' ?u ?prev ''abate'' = Some state"
    and d: "userDefinition ?u = None \<longrightarrow>
              userDefinition state = userDefinition (spread_of (?prev ''abate''))"
    and f: "definitionFeedback ?u = None \<longrightarrow>
              definitionFeedback state = definitionFeedback (spread_of (?prev ''abate''))"
    and s: "userSentence ?u = None \<longrightarrow>
              userSentence state = userSentence (spread_of (?prev ''abate''))"
    and g: "sentenceFeedback ?u = None \<longrightarrow>
              sentenceFeedback state = sentenceFeedback (spread_of (?prev ''abate''))"
    by (elim exE conjE)
  from d f s g have "userDefinition state = Some ''to lessen''" "definitionFeedback state = None"
    "userSentence state = None" "sentenceFeedback state = None"
    by (simp_all add: spread_of_def fresh_def)
  with state other show ?thesis
    by (intro conjI exI [of _ state]) simp_all
qed

text \<open>
  Claim C4. When the request rejects, the word still leaves the phase of the submission:
  a definition ends in \<open>Revealed\<close>, a sentence in \<open>Feedback\<close>; the text submitted is
  stored, and the feedback stored has score 0 and a message that is not empty. This
  holds for every word, every input and every prior map of states.
\<close>

theorem failure_substitution:
  "(\<exists>state fb. assessDefinition w userDef Rejects prev (word w) = Some state
       \<and> phase state = Some Revealed \<and> userDefinition state = Some userDef
       \<and> definitionFeedback state = Some fb \<and> score fb = 0 \<and> feedback fb \<noteq> [])
   \<and> (\<exists>state fb. assessSentence w userSen Rejects prev (word w) = Some state
       \<and> phase state = Some Feedback \<and> userSentence state = Some userSen
       \<and> sentenceFeedback state = Some fb \<and> score fb = 0 \<and> feedback fb \<noteq> [])"
  by (simp add: assessDefinition_same assessSentence_same could_not_assess_not_empty)

text \<open>
  Claim C2. After \<open>dismissWord\<close> with an answer from the assessment, the word is in
  \<open>Dismissed\<close> exactly when the score of that answer is at least 4, and in \<open>Revealed\<close>
  otherwise (in particular for the scores 1, 2 and 3); when the assessment fails, the
  word is in \<open>Revealed\<close>. This holds from every prior state of the word, so also from
  \<open>Define\<close>, where the page offers the trigger.
\<close>

theorem dismissWord_threshold:
  "(\<exists>state. dismissWord w userDef (Resolves data) prev (word w) = Some state
      \<and> (phase state = Some Dismissed) = (4 \<le> score data)
      \<and> phase state = Some (if 4 \<le> score data then Dismissed else Revealed))
   \<and> (\<exists>state. dismissWord w userDef Rejects prev (word w) = Some state
      \<and> phase state = Some Revealed)"
  by (simp add: dismissWord_same)



section \<open>Properties of the phases\<close>

lemma phase_of_updateWordState:
  "phase_of (p\<lparr>wordStates := updateWordState v update (wordStates p)\<rparr>) w =
     (if w = v then later (phase_of p v) (phase update) else phase_of p w)"
  by (simp add: phase_of_def updateWordState_def spread_of_def split: option.split)

lemma fire_phase:
  assumes "fire e p = Some p'"
  shows "phase_of p' w = phase_of p w
       \<or> phase_of p' w = Some Revealed
       \<or> phase_of p' w = Some Dismissed
       \<or> (phase_of p' w = Some Sentence \<and> phase_of p w = Some Revealed)
       \<or> (phase_of p' w = Some Feedback \<and> sentence_pending p w)"
proof (cases e)
  case (SubmitDefinition v d)
  with assms show ?thesis by (auto simp: phase_of_def split: if_splits)
next
  case (Dismiss v d)
  with assms show ?thesis by (auto simp: phase_of_def split: if_splits)
next
  case (DefinitionAssessed v d response)
  with assms have p': "wordStates p' = assessDefinition v d response (wordStates p)"
    by (auto split: if_splits)
  show ?thesis
  proof (cases "w = word v")
    case True
    then show ?thesis by (simp add: phase_of_def p' assessDefinition_same)
  next
    case False
    then show ?thesis by (simp add: phase_of_def p' assessDefinition_other)
  qed
next
  case (DismissAssessed v d response)
  with assms have p': "wordStates p' = dismissWord v d response (wordStates p)"
    by (auto split: if_splits)
  show ?thesis
  proof (cases "w = word v")
    case True
    then show ?thesis by (simp add: phase_of_def p' dismissWord_same)
  next
    case False
    then show ?thesis by (simp add: phase_of_def p' dismissWord_other)
  qed
next
  case (MoveSentence v)
  with assms have "phase_of p (word v) = Some Revealed"
    and "p' = p\<lparr>wordStates :=
                  updateWordState (word v) (no_properties\<lparr>phase := Some Sentence\<rparr>) (wordStates p)\<rparr>"
    by (auto split: if_splits)
  then show ?thesis by (simp add: phase_of_updateWordState)
next
  case (SubmitSentence v s)
  with assms show ?thesis by (auto simp: phase_of_def split: if_splits)
next
  case (SentenceAssessed v s response)
  with assms have req: "SentenceRequest v s \<in> set (inflight p)"
    and p': "wordStates p' = assessSentence v s response (wordStates p)"
    by (auto split: if_splits)
  show ?thesis
  proof (cases "w = word v")
    case True
    with req have "sentence_pending p w"
      by (auto simp: sentence_pending_def list_ex_iff intro!: bexI [of _ "SentenceRequest v s"])
    with True show ?thesis by (simp add: phase_of_def p' assessSentence_same)
  next
    case False
    then show ?thesis by (simp add: phase_of_def p' assessSentence_other)
  qed
qed

lemma pending_remove1:
  "list_ex (asks_sentence w) (remove1 r rs) \<Longrightarrow> list_ex (asks_sentence w) rs"
  using set_remove1_subset [of r rs] by (auto simp: list_ex_iff)

lemma fire_pending:
  assumes "fire e p = Some p'" and "sentence_pending p' w"
  shows "sentence_pending p w \<or> phase_of p w = Some Sentence"
proof (cases e)
  case (SubmitSentence v s)
  with assms show ?thesis
    by (auto simp: sentence_pending_def split: if_splits)
qed (use assms in \<open>auto simp: sentence_pending_def split: if_splits dest: pending_remove1\<close>)

lemma run_not_empty: "run p es = Some ps \<Longrightarrow> ps \<noteq> []"
  by (cases es) (auto split: option.splits)

lemma run_snoc:
  "run p (es @ [e]) =
     (case run p es of
        None \<Rightarrow> None
      | Some ps \<Rightarrow> (case fire e (last ps) of None \<Rightarrow> None | Some p' \<Rightarrow> Some (ps @ [p'])))"
proof (induction es arbitrary: p)
  case Nil
  show ?case by (simp split: option.split)
next
  case (Cons e' es)
  show ?case
    by (auto simp: Cons.IH run_not_empty split: option.split)
qed

lemma subseq_snoc_same: "subseq xs ys \<Longrightarrow> subseq (xs @ [z]) (ys @ [z])"
  by (rule list_emb_append_mono) simp_all

lemma run_invariant:
  assumes "run p0 es = Some ps" and "inflight p0 = []" and "phase_of p0 w = Some Define"
  shows "subseq [Some Define] (phases w ps)
       \<and> (phase_of (last ps) w = Some Define \<longrightarrow> \<not> sentence_pending (last ps) w)
       \<and> (phase_of (last ps) w = Some Revealed \<longrightarrow>
            subseq [Some Define, Some Revealed] (phases w ps))
       \<and> (phase_of (last ps) w = Some Sentence \<or> sentence_pending (last ps) w \<longrightarrow>
            subseq [Some Define, Some Revealed, Some Sentence] (phases w ps))
       \<and> (phase_of (last ps) w = Some Feedback \<longrightarrow>
            subseq [Some Define, Some Revealed, Some Sentence, Some Feedback] (phases w ps))
       \<and> (\<forall>i. Suc i < length ps \<longrightarrow> phase_of (ps ! i) w = Some Define \<longrightarrow>
            phase_of (ps ! Suc i) w \<noteq> Some Feedback)"
  using assms(1)
proof (induction es arbitrary: ps rule: rev_induct)
  case Nil
  then have "ps = [p0]" by simp
  with assms(2,3) show ?case
    by (simp add: phases_def sentence_pending_def)
next
  case (snoc e es)
  from snoc.prems obtain ps0 p' where
    ps0: "run p0 es = Some ps0" and fire: "fire e (last ps0) = Some p'" and ps: "ps = ps0 @ [p']"
    by (auto simp: run_snoc split: option.splits)
  let ?p = "last ps0"
  let ?h = "phases w ps0"
  note IH = snoc.IH [OF ps0]
  have ne: "ps0 \<noteq> []" using ps0 by (rule run_not_empty)
  have hist: "phases w ps = ?h @ [phase_of p' w]"
    by (simp add: ps phases_def)
  have last: "last ps = p'" by (simp add: ps)
  note ph = fire_phase [OF fire, of w]
  note pe = fire_pending [OF fire, of w]
  have I0: "subseq [Some Define] (phases w ps)"
    unfolding hist using IH by (blast intro: subseq_rev_drop_many)
  have I1: "\<not> sentence_pending p' w" if "phase_of p' w = Some Define"
  proof
    assume pend: "sentence_pending p' w"
    from ph that have "phase_of ?p w = Some Define" by auto
    with IH pe [OF pend] show False by auto
  qed
  have I2: "subseq [Some Define, Some Revealed] (phases w ps)" if "phase_of p' w = Some Revealed"
  proof -
    from IH have "subseq [Some Define] ?h" by blast
    then have "subseq ([Some Define] @ [Some Revealed]) (?h @ [Some Revealed])"
      by (rule subseq_snoc_same)
    then show ?thesis by (simp add: hist that)
  qed
  have old3: "subseq [Some Define, Some Revealed, Some Sentence] ?h"
    if "phase_of ?p w = Some Sentence \<or> sentence_pending ?p w"
    using IH that by blast
  have I3: "subseq [Some Define, Some Revealed, Some Sentence] (phases w ps)"
    if h: "phase_of p' w = Some Sentence \<or> sentence_pending p' w"
  proof -
    consider (old) "phase_of ?p w = Some Sentence \<or> sentence_pending ?p w"
      | (new) "phase_of p' w = Some Sentence" "phase_of ?p w = Some Revealed"
      using h ph pe by auto
    then show ?thesis
    proof cases
      case old
      then show ?thesis unfolding hist by (blast intro: subseq_rev_drop_many old3)
    next
      case new
      with IH have "subseq [Some Define, Some Revealed] ?h" by blast
      then have "subseq ([Some Define, Some Revealed] @ [Some Sentence]) (?h @ [Some Sentence])"
        by (rule subseq_snoc_same)
      then show ?thesis by (simp add: hist new)
    qed
  qed
  have I4: "subseq [Some Define, Some Revealed, Some Sentence, Some Feedback] (phases w ps)"
    if h: "phase_of p' w = Some Feedback"
  proof -
    consider (old) "phase_of ?p w = Some Feedback" | (new) "sentence_pending ?p w"
      using h ph by auto
    then show ?thesis
    proof cases
      case old
      with IH have "subseq [Some Define, Some Revealed, Some Sentence, Some Feedback] ?h"
        by blast
      then show ?thesis unfolding hist by (rule subseq_rev_drop_many)
    next
      case new
      then have "subseq [Some Define, Some Revealed, Some Sentence] ?h"
        by (simp add: old3)
      then have "subseq ([Some Define, Some Revealed, Some Sentence] @ [Some Feedback])
                   (?h @ [Some Feedback])"
        by (rule subseq_snoc_same)
      then show ?thesis by (simp add: hist h)
    qed
  qed
  have I5: "phase_of (ps ! Suc i) w \<noteq> Some Feedback"
    if "Suc i < length ps" and "phase_of (ps ! i) w = Some Define" for i
  proof (cases "Suc i < length ps0")
    case True
    with that IH show ?thesis by (simp add: ps nth_append)
  next
    case False
    with that(1) have i: "Suc i = length ps0" by (simp add: ps)
    then have "i = length ps0 - 1" by simp
    with i have "ps ! i = ?p" and "ps ! Suc i = p'"
      using ne by (simp_all add: ps nth_append last_conv_nth)
    with that(2) have "phase_of ?p w = Some Define" by simp
    with IH have "\<not> sentence_pending ?p w" by blast
    with ph \<open>phase_of ?p w = Some Define\<close> \<open>ps ! Suc i = p'\<close> show ?thesis by auto
  qed
  from I0 I1 I2 I3 I4 I5 show ?case
    unfolding last by blast
qed

lemma run_prefix:
  "run p es = Some ps \<Longrightarrow> i < length ps \<Longrightarrow> run p (take i es) = Some (take (Suc i) ps)"
proof (induction es arbitrary: p ps i)
  case Nil
  then show ?case by auto
next
  case (Cons e es)
  from Cons.prems(1) obtain p' ps' where fire: "fire e p = Some p'"
    and rest: "run p' es = Some ps'" and ps: "ps = p # ps'"
    by (auto split: option.splits)
  show ?case
  proof (cases i)
    case 0
    then show ?thesis by (simp add: ps)
  next
    case (Suc k)
    with Cons.prems(2) have "k < length ps'"
      by (simp add: ps)
    with rest have "run p' (take k es) = Some (take (Suc k) ps')"
      by (rule Cons.IH)
    then show ?thesis
      by (simp add: Suc fire ps)
  qed
qed

text \<open>
  Claim C8. Take any run of the page from a moment at which no request is under way and
  the word \<open>w\<close> is in \<open>Define\<close>. Wherever the run shows \<open>w\<close> in \<open>Feedback\<close> (the
  graded phase), the phases of \<open>w\<close> up to that point contain \<open>Define\<close>, \<open>Revealed\<close>,
  \<open>Sentence\<close>, \<open>Feedback\<close> in this order; and no single event of the run takes \<open>w\<close>
  from \<open>Define\<close> to \<open>Feedback\<close>.
\<close>

theorem graded_only_via_revealed_and_sentence:
  assumes "run p0 es = Some ps" and "inflight p0 = []" and "phase_of p0 w = Some Define"
  shows "(\<forall>i. i < length ps \<longrightarrow> phase_of (ps ! i) w = Some Feedback \<longrightarrow>
            subseq [Some Define, Some Revealed, Some Sentence, Some Feedback]
              (phases w (take (Suc i) ps)))
       \<and> (\<forall>i. Suc i < length ps \<longrightarrow> phase_of (ps ! i) w = Some Define \<longrightarrow>
            phase_of (ps ! Suc i) w \<noteq> Some Feedback)"
proof -
  have "subseq [Some Define, Some Revealed, Some Sentence, Some Feedback]
          (phases w (take (Suc i) ps))"
    if "i < length ps" and "phase_of (ps ! i) w = Some Feedback" for i
  proof -
    from assms(1) that(1) have "run p0 (take i es) = Some (take (Suc i) ps)"
      by (rule run_prefix)
    moreover from that(1) have "last (take (Suc i) ps) = ps ! i"
      by (simp add: take_Suc_conv_app_nth)
    ultimately show ?thesis
      using run_invariant [of p0 "take i es" "take (Suc i) ps" w] assms(2,3) that(2)
      by simp
  qed
  with run_invariant [OF assms] show ?thesis
    by blast
qed

theorem graded_only_via_revealed_and_sentence_witness:
  "phases ''abate'' (the (run page0 events0)) =
       [Some Define, Some Define, Some Define, Some Revealed, Some Sentence, Some Sentence,
        Some Feedback]
   \<and> subseq [Some Define, Some Revealed, Some Sentence, Some Feedback]
       (phases ''abate'' (take (Suc 6) (the (run page0 events0))))"
proof -
  have ph: "phases ''abate'' (the (run page0 events0)) =
       [Some Define, Some Define, Some Define, Some Revealed, Some Sentence, Some Sentence,
        Some Feedback]"
    and r: "run page0 events0 = Some (the (run page0 events0))"
    by (simp_all add: page0_def events0_def phases_def phase_of_def assessDefinition_def
        assessSentence_def updateWordState_def spread_def spread_of_def abate_def zeal_def
        fresh_def no_properties_def)
  have start: "inflight page0 = []" "phase_of page0 ''abate'' = Some Define"
    by (simp_all add: page0_def phase_of_def fresh_def)
  have "length (phases ''abate'' (the (run page0 events0))) = 7"
    by (simp add: ph)
  then have len: "6 < length (the (run page0 events0))"
    by (simp add: phases_def)
  have "phases ''abate'' (the (run page0 events0)) ! 6 = Some Feedback"
    by (simp add: ph)
  with len have last: "phase_of (the (run page0 events0) ! 6) ''abate'' = Some Feedback"
    by (simp add: phases_def)
  from graded_only_via_revealed_and_sentence [OF r start, THEN conjunct1, rule_format, OF len last] ph
  show ?thesis
    by blast
qed

section \<open>Properties of the progress store\<close>

subsection \<open>Strings\<close>

lemma push_Some [simp]: "push c (Some (s, rest)) = Some (c # s, rest)"
  by (simp add: push_def)





subsection \<open>Numbers\<close>















subsection \<open>From the text of a value to its tokens\<close>

lemma emits_simps [simp]:
  "emits [] r = r"
  "emits ts None = None"
  "emits ts (Some ts') = Some (ts @ ts')"
  "emits ts (emits ts' r) = emits (ts @ ts') r"
  "emit t r = emits [t] r"
  by (simp_all add: emits_def emit_def split: option.split)

lemma closes_simps [simp]:
  "closes []"
  "closes (CHR '','' # cs)"
  "closes (CHR '']'' # cs)"
  "closes (CHR ''}'' # cs)"
  by (simp_all add: closes_def)

lemma lex_punctuation [simp]:
  "lex (CHR ''{'' # cs) = emits [LBrace] (lex cs)"
  "lex (CHR ''}'' # cs) = emits [RBrace] (lex cs)"
  "lex (CHR ''['' # cs) = emits [LBracket] (lex cs)"
  "lex (CHR '']'' # cs) = emits [RBracket] (lex cs)"
  "lex (CHR '','' # cs) = emits [Comma] (lex cs)"
  "lex (CHR '':'' # cs) = emits [Colon] (lex cs)"
  by (simp_all add: lex.simps is_space_def)

lemma lex_words [simp]:
  "lex (CHR ''n'' # CHR ''u'' # CHR ''l'' # CHR ''l'' # cs) = emits [TNull] (lex cs)"
  "lex (CHR ''t'' # CHR ''r'' # CHR ''u'' # CHR ''e'' # cs) = emits [TTrue] (lex cs)"
  "lex (CHR ''f'' # CHR ''a'' # CHR ''l'' # CHR ''s'' # CHR ''e'' # cs) = emits [TFalse] (lex cs)"
  by (simp_all add: lex.simps is_space_def is_digit_def)







subsection \<open>From the tokens of a value to the value\<close>










subsection \<open>Loading and saving\<close>






section \<open>Properties of the rate limiter\<close>

lemma answers_simps [simp]:
  "answers ip [] = []"
  "answers ip ((ip', b) # rs) = (if ip' = ip then b # answers ip rs else answers ip rs)"
  by (simp_all add: answers_def)

lemma isRateLimited_other:
  "ip' \<noteq> ip \<Longrightarrow> snd (isRateLimited now ip' rateMap) ip = rateMap ip"
  by (simp add: isRateLimited_def Let_def split: option.split)

lemma isRateLimited_inside:
  assumes "rateMap ip = Some entry" and "now \<le> resetAt entry"
  shows "isRateLimited now ip rateMap =
           (RATE_LIMIT < count entry + 1, rateMap(ip \<mapsto> entry\<lparr>count := count entry + 1\<rparr>))"
  using assms by (simp add: isRateLimited_def Let_def)

lemma isRateLimited_fresh:
  assumes "rateMap ip = None \<or> (\<exists>entry. rateMap ip = Some entry \<and> resetAt entry < now)"
  shows "isRateLimited now ip rateMap =
           (False, rateMap(ip \<mapsto> \<lparr>count = 1, resetAt = now + RATE_WINDOW_MS\<rparr>))"
  using assms by (auto simp add: isRateLimited_def)

lemma cleanup_inside:
  assumes "rateMap ip = Some entry" and "now \<le> resetAt entry"
  shows "cleanup now rateMap ip = Some entry"
  using assms by (simp add: cleanup_def)

lemma map_upt_shift:
  "f 0 # map (\<lambda>k. f (Suc k)) [0..<n] = map f [0..<Suc n]"
  by (simp add: upt_conv_Cons map_Suc_upt [symmetric] del: upt_Suc)

lemma serve_inside:
  assumes "rateMap ip = Some entry" and "\<forall>e \<in> set es. time_of e \<le> resetAt entry"
  shows "answers ip (serve es rateMap) =
           map (\<lambda>k. RATE_LIMIT < count entry + 1 + k) [0..<requests_from ip es]"
  using assms
proof (induction es arbitrary: rateMap entry)
  case Nil
  then show ?case by simp
next
  case (Cons e es)
  show ?case
  proof (cases e)
    case (Cleanup now)
    with Cons.prems have "cleanup now rateMap ip = Some entry"
      by (simp add: cleanup_inside)
    with Cons.IH [of "cleanup now rateMap" entry] Cons.prems Cleanup show ?thesis
      by simp
  next
    case (Request now ip')
    show ?thesis
    proof (cases "ip' = ip")
      case False
      then have "snd (isRateLimited now ip' rateMap) ip = Some entry"
        using Cons.prems by (simp add: isRateLimited_other)
      with Cons.IH [of "snd (isRateLimited now ip' rateMap)" entry] Cons.prems Request False
      show ?thesis by simp
    next
      case True
      define entry' where "entry' = entry\<lparr>count := count entry + 1\<rparr>"
      define m' where "m' = rateMap(ip \<mapsto> entry')"
      have step: "isRateLimited now ip rateMap = (RATE_LIMIT < count entry + 1, m')"
        using Cons.prems Request True by (simp add: isRateLimited_inside m'_def entry'_def)
      have "m' ip = Some entry'" and "\<forall>e \<in> set es. time_of e \<le> resetAt entry'"
        using Cons.prems by (simp_all add: m'_def entry'_def)
      then have "answers ip (serve es m') =
              map (\<lambda>k. RATE_LIMIT < count entry' + 1 + k) [0..<requests_from ip es]"
        by (rule Cons.IH)
      then have tl: "answers ip (serve es m') =
              map (\<lambda>k. RATE_LIMIT < count entry + 1 + Suc k) [0..<requests_from ip es]"
        by (simp add: entry'_def)
      have "answers ip (serve (e # es) rateMap) =
              (RATE_LIMIT < count entry + 1 + 0) # answers ip (serve es m')"
        by (simp add: Request True step)
      also have "\<dots> = map (\<lambda>k. RATE_LIMIT < count entry + 1 + k) [0..<Suc (requests_from ip es)]"
        unfolding tl by (rule map_upt_shift)
      finally show ?thesis
        by (simp add: Request True)
    qed
  qed
qed

text \<open>
  Claim C10. A request that finds no entry for its address, or an entry whose \<open>resetAt\<close>
  lies in the past, is admitted and opens a window with count 1 that ends
  \<open>RATE_WINDOW_MS\<close> later. Whatever happens up to the end of that window (requests of
  this and other addresses, clean-up runs, in any order), the answers to this address are
  \<open>False\<close> for the first 30 requests, the opening one included, and \<open>True\<close> for every
  later one.
\<close>

theorem isRateLimited_window:
  assumes "rateMap ip = None \<or> (\<exists>entry. rateMap ip = Some entry \<and> resetAt entry < now)"
    and "\<forall>e \<in> set es. time_of e \<le> now + RATE_WINDOW_MS"
  shows "isRateLimited now ip rateMap =
           (False, rateMap(ip \<mapsto> \<lparr>count = 1, resetAt = now + RATE_WINDOW_MS\<rparr>))
       \<and> answers ip (serve (Request now ip # es) rateMap) =
           map (\<lambda>k. RATE_LIMIT \<le> k) [0..<Suc (requests_from ip es)]"
proof -
  define m' where "m' = rateMap(ip \<mapsto> \<lparr>count = 1, resetAt = now + RATE_WINDOW_MS\<rparr>)"
  have first: "isRateLimited now ip rateMap = (False, m')"
    unfolding m'_def using assms(1) by (rule isRateLimited_fresh)
  have "answers ip (serve es m') =
          map (\<lambda>k. RATE_LIMIT < count \<lparr>count = 1, resetAt = now + RATE_WINDOW_MS\<rparr> + 1 + k)
            [0..<requests_from ip es]"
    by (rule serve_inside) (use assms(2) in \<open>simp_all add: m'_def\<close>)
  then have rest: "answers ip (serve es m') = map (\<lambda>k. RATE_LIMIT \<le> Suc k) [0..<requests_from ip es]"
    by (simp add: less_eq_Suc_le)
  have "answers ip (serve (Request now ip # es) rateMap) =
          (RATE_LIMIT \<le> 0) # answers ip (serve es m')"
    by (simp add: first RATE_LIMIT_def)
  also have "\<dots> = map (\<lambda>k. RATE_LIMIT \<le> k) [0..<Suc (requests_from ip es)]"
    unfolding rest by (rule map_upt_shift)
  finally show ?thesis
    using first by (simp add: m'_def)
qed

theorem isRateLimited_window_witness:
  "isRateLimited 0 ''10.0.0.1'' Map.empty =
     (False, [''10.0.0.1'' \<mapsto> \<lparr>count = 1, resetAt = 60000\<rparr>])
   \<and> answers ''10.0.0.1''
     (serve (Request 0 ''10.0.0.1'' #
             replicate 30 (Request 1000 ''10.0.0.1'') @ [Cleanup 2000, Request 60000 ''10.0.0.1''])
        Map.empty)
   = replicate 30 False @ [True, True]"
proof -
  let ?ip = "''10.0.0.1''"
  let ?es = "replicate 30 (Request 1000 ?ip) @ [Cleanup 2000, Request 60000 ?ip]"
  have fresh: "Map.empty ?ip = None \<or> (\<exists>entry. Map.empty ?ip = Some entry \<and> resetAt entry < 0)"
    by simp
  have inside: "\<forall>e \<in> set ?es. time_of e \<le> 0 + RATE_WINDOW_MS"
    by (simp add: RATE_WINDOW_MS_def)
  have n: "requests_from ?ip ?es = 31"
    by code_simp
  have "map (\<lambda>k. RATE_LIMIT \<le> k) [0..<Suc 31] = replicate 30 False @ [True, True]"
    by code_simp
  with isRateLimited_window [OF fresh inside] n show ?thesis
    by (simp only: RATE_WINDOW_MS_def) simp
qed

end
